theory Spec2Isabelle
  imports Main
begin

section \<open>Exceptions\<close>

text \<open>
  A JavaScript exception is a value of type \<open>error\<close>; a method that may throw returns
  \<open>error + 'a\<close> with \<open>Inl\<close> for the thrown exception. \<open>TypeError\<close> is what reading a
  property of \<open>undefined\<close> throws; \<open>Failure\<close> is an exception thrown by a collaborator
  (the data source, a node's own computation).
\<close>

datatype error = TypeError | Failure string

section \<open>RepositoriesNode: the container of repository nodes\<close>

text \<open>The fields of a \<open>Repository\<close> that \<open>RepositoriesNode\<close> reads.\<close>

record repository =
  path :: string
  normalizedPath :: string
  index :: int
  closed :: bool

text \<open>
  Modelled from the spec: \<open>RepositoryNode\<close> and \<open>MessageNode\<close>, the two classes of
  child a \<open>RepositoriesNode\<close> caches, are imported. \<open>inst\<close> is the identity of the
  object (what \<open>===\<close> and \<open>Array.includes\<close> compare); a \<open>RepositoryNode\<close> keeps
  the repository it was constructed with; a \<open>MessageNode\<close> is the informational
  placeholder leaf, constructed from a parent and a message only, so it has no \<open>repo\<close>
  property.
\<close>

datatype node =
    RepositoryNode (inst: nat) repository
  | MessageNode (inst: nat) string

text \<open>
  Modelled from the spec: the enumeration \<open>RefreshReason\<close> is imported; \<open>refresh\<close>
  compares its argument with \<open>ConfigurationChanged\<close> only.
\<close>

datatype RefreshReason = ConfigurationChanged | OtherReason

text \<open>
  The state of one \<open>RepositoriesNode\<close>: the field \<open>_children\<close> (\<open>None\<close> is
  \<open>undefined\<close>), whether the node holds a subscription, and the bookkeeping that makes
  the effects on other objects observable: the next unused object identity, the number of
  calls of \<open>Container.git.getRepositories()\<close>, and the identities on which \<open>dispose()\<close>
  and \<open>refresh()\<close> were called, in call order.
\<close>

record RepositoriesNode =
  children :: "node list option"
  subscribed :: bool
  nextInst :: nat
  fetches :: nat
  disposed :: "nat list"
  refreshed :: "nat list"

definition new_RepositoryNode :: "repository \<Rightarrow> RepositoriesNode \<Rightarrow> node \<times> RepositoriesNode" where
  "new_RepositoryNode r s = (RepositoryNode (nextInst s) r, s\<lparr>nextInst := Suc (nextInst s)\<rparr>)"

definition new_MessageNode :: "string \<Rightarrow> RepositoriesNode \<Rightarrow> node \<times> RepositoriesNode" where
  "new_MessageNode m s = (MessageNode (nextInst s) m, s\<lparr>nextInst := Suc (nextInst s)\<rparr>)"

definition child_dispose :: "node \<Rightarrow> RepositoriesNode \<Rightarrow> RepositoriesNode" where
  "child_dispose c s = s\<lparr>disposed := disposed s @ [inst c]\<rparr>"

definition child_refresh :: "node \<Rightarrow> RepositoriesNode \<Rightarrow> RepositoriesNode" where
  "child_refresh c s = s\<lparr>refreshed := refreshed s @ [inst c]\<rparr>"

text \<open>
  Modelled from the spec: \<open>SubscribeableViewNode\<close>, the base class, is imported; its
  \<open>ensureSubscription\<close> creates the subscription when there is none and \<open>unsubscribe\<close>
  releases it.
\<close>

definition ensureSubscription :: "RepositoriesNode \<Rightarrow> RepositoriesNode" where
  "ensureSubscription s = s\<lparr>subscribed := True\<rparr>"

definition unsubscribe :: "RepositoriesNode \<Rightarrow> RepositoriesNode" where
  "unsubscribe s = s\<lparr>subscribed := False\<rparr>"

text \<open>\<open>await Container.git.getRepositories()\<close>: the data source's answer is a parameter.\<close>

definition getRepositories ::
  "(error + repository list) \<Rightarrow> RepositoriesNode \<Rightarrow> (error + repository list) \<times> RepositoriesNode" where
  "getRepositories answer s = (answer, s\<lparr>fetches := Suc (fetches s)\<rparr>)"

text \<open>\<open>repositories.sort((a, b) => a.index - b.index)\<close>: a stable sort on the index.\<close>

definition sortByIndex :: "repository list \<Rightarrow> repository list" where
  "sortByIndex repositories = sort_key index repositories"

subsection \<open>getChildren\<close>

text \<open>The loop of \<open>getChildren\<close>: closed repositories are skipped.\<close>

fun getChildren_loop ::
  "repository list \<Rightarrow> node list \<Rightarrow> RepositoriesNode \<Rightarrow> node list \<times> RepositoriesNode" where
  "getChildren_loop [] acc s = (acc, s)"
| "getChildren_loop (r # rest) acc s =
     (if closed r then getChildren_loop rest acc s
      else (case new_RepositoryNode r s of
              (n, s') \<Rightarrow> getChildren_loop rest (acc @ [n]) s'))"

definition RepositoriesNode_getChildren ::
  "(error + repository list) \<Rightarrow> RepositoriesNode \<Rightarrow> (error + node list) \<times> RepositoriesNode" where
  "RepositoriesNode_getChildren answer s =
     (case children s of
        Some cs \<Rightarrow> (Inr cs, s)
      | None \<Rightarrow>
          (case getRepositories answer s of
             (Inl e, s1) \<Rightarrow> (Inl e, s1)
           | (Inr repositories, s1) \<Rightarrow>
               if repositories = [] then
                 (case new_MessageNode ''No repositories found'' s1 of
                    (m, s2) \<Rightarrow> (Inr [m], s2))
               else
                 (case getChildren_loop (sortByIndex repositories) [] s1 of
                    (cs, s2) \<Rightarrow> (Inr cs, s2\<lparr>children := Some cs\<rparr>))))"

subsection \<open>refresh\<close>

text \<open>
  \<open>(this._children as RepositoryNode[]).find(c => c.repo.normalizedPath === normalizedPath)\<close>:
  the first cached child with that normalized path. The cast does not change the objects:
  on a \<open>MessageNode\<close> the callback reads \<open>normalizedPath\<close> of \<open>undefined\<close> and throws.
\<close>

fun findByNormalizedPath :: "string \<Rightarrow> node list \<Rightarrow> error + node option" where
  "findByNormalizedPath p [] = Inr None"
| "findByNormalizedPath p (RepositoryNode i r # cs) =
     (if normalizedPath r = p then Inr (Some (RepositoryNode i r)) else findByNormalizedPath p cs)"
| "findByNormalizedPath p (MessageNode i m # cs) = Inl TypeError"

text \<open>The first loop of \<open>refresh\<close>: keep and refresh a matched child, construct the others.\<close>

fun refresh_loop ::
  "node list \<Rightarrow> repository list \<Rightarrow> node list \<Rightarrow> RepositoriesNode \<Rightarrow>
   (error + node list) \<times> RepositoriesNode" where
  "refresh_loop cached [] acc s = (Inr acc, s)"
| "refresh_loop cached (r # rest) acc s =
     (case findByNormalizedPath (normalizedPath r) cached of
        Inl e \<Rightarrow> (Inl e, s)
      | Inr (Some child) \<Rightarrow> refresh_loop cached rest (acc @ [child]) (child_refresh child s)
      | Inr None \<Rightarrow>
          (case new_RepositoryNode r s of
             (n, s') \<Rightarrow> refresh_loop cached rest (acc @ [n]) s'))"

text \<open>\<open>children.includes(child)\<close> compares object identities.\<close>

definition children_includes :: "node list \<Rightarrow> node \<Rightarrow> bool" where
  "children_includes cs c = (inst c \<in> inst ` set cs)"

text \<open>The second loop of \<open>refresh\<close>: dispose the cached children that were not kept.\<close>

fun dispose_loop :: "node list \<Rightarrow> node list \<Rightarrow> RepositoriesNode \<Rightarrow> RepositoriesNode" where
  "dispose_loop [] kept s = s"
| "dispose_loop (child # rest) kept s =
     (if children_includes kept child then dispose_loop rest kept s
      else dispose_loop rest kept (child_dispose child s))"

text \<open>
  \<open>refresh\<close>. The result is the value the promise resolves to, as \<open>refreshNode\<close> reads
  it: \<open>True\<close> for \<open>true\<close>. Every path of the method returns \<open>undefined\<close>.
\<close>

definition RepositoriesNode_refresh ::
  "(error + repository list) \<Rightarrow> RefreshReason option \<Rightarrow> RepositoriesNode \<Rightarrow>
   (error + bool) \<times> RepositoriesNode" where
  "RepositoriesNode_refresh answer reason s =
     (case children s of
        None \<Rightarrow> (Inr False, s)
      | Some cached \<Rightarrow>
          (case getRepositories answer s of
             (Inl e, s1) \<Rightarrow> (Inl e, s1)
           | (Inr repositories, s1) \<Rightarrow>
               if repositories = [] \<and> (children s1 = None \<or> cached = []) then (Inr False, s1)
               else if repositories = [] then
                 (case new_MessageNode ''No repositories found'' s1 of
                    (m, s2) \<Rightarrow> (Inr False, s2\<lparr>children := Some [m]\<rparr>))
               else
                 (case refresh_loop cached (sortByIndex repositories) [] s1 of
                    (Inl e, s2) \<Rightarrow> (Inl e, s2)
                  | (Inr cs, s2) \<Rightarrow>
                      let s3 = (dispose_loop cached cs s2)\<lparr>children := Some cs\<rparr>;
                          s4 = (if reason = Some ConfigurationChanged then unsubscribe s3 else s3)
                      in (Inr False, ensureSubscription s4))))"

text \<open>\<open>dispose\<close>: only the children that are repository nodes are disposed.\<close>

fun dispose_children :: "node list \<Rightarrow> RepositoriesNode \<Rightarrow> RepositoriesNode" where
  "dispose_children [] s = s"
| "dispose_children (RepositoryNode i r # rest) s =
     dispose_children rest (child_dispose (RepositoryNode i r) s)"
| "dispose_children (MessageNode i m # rest) s = dispose_children rest s"

definition RepositoriesNode_dispose :: "RepositoriesNode \<Rightarrow> RepositoriesNode" where
  "RepositoriesNode_dispose s =
     (let s1 = unsubscribe s in
      case children s1 of
        None \<Rightarrow> s1
      | Some cs \<Rightarrow> (dispose_children cs s1)\<lparr>children := None\<rparr>)"

text \<open>The stable key of a child: the normalized path of its repository.\<close>

fun stableKey :: "node \<Rightarrow> string option" where
  "stableKey (RepositoryNode i r) = Some (normalizedPath r)"
| "stableKey (MessageNode i m) = None"

section \<open>ViewBase: notification, children, search and paging\<close>

subsection \<open>Change notifications\<close>

text \<open>
  \<open>triggerNodeChange\<close> fires \<open>_onDidChangeTreeData\<close> with the node, or with \<open>undefined\<close>
  (here \<open>None\<close>: the whole tree) when no node is given or the node is the root. The list
  is the sequence of fired events.
\<close>

definition triggerNodeChange :: "'r option \<Rightarrow> 'r option \<Rightarrow> 'r option list \<Rightarrow> 'r option list" where
  "triggerNodeChange node rootNode fired =
     fired @ [if node \<noteq> None \<and> node \<noteq> rootNode then node else None]"

text \<open>
  \<open>refreshNode\<close>, for a node with identity \<open>node\<close> and state \<open>s\<close>. The first argument is
  the node's \<open>refresh\<close> method (\<open>None\<close> when the node has none), which gets \<open>reset\<close> and
  returns whether its promise resolved to \<open>true\<close>. An exception of \<open>refresh\<close> rejects the
  promise of \<open>refreshNode\<close> before anything is fired.
\<close>

definition refreshNode ::
  "(bool \<Rightarrow> 's \<Rightarrow> (error + bool) \<times> 's) option \<Rightarrow> 'r \<Rightarrow> bool \<Rightarrow> 'r option \<Rightarrow>
   's \<times> 'r option list \<Rightarrow> (error + unit) \<times> 's \<times> 'r option list" where
  "refreshNode refresh node reset rootNode st =
     (case st of (s, fired) \<Rightarrow>
        (case refresh of
           None \<Rightarrow> (Inr (), s, triggerNodeChange (Some node) rootNode fired)
         | Some f \<Rightarrow>
             (case f reset s of
                (Inl e, s') \<Rightarrow> (Inl e, s', fired)
              | (Inr cancel, s') \<Rightarrow>
                  if cancel then (Inr (), s', fired)
                  else (Inr (), s', triggerNodeChange (Some node) rootNode fired))))"

subsection \<open>Nodes of the tree\<close>

text \<open>
  Modelled from the spec: \<open>ViewNode\<close> and \<open>PageableViewNode\<close> are imported. A node is
  what the data source would show below it: \<open>ref\<close> is the identity of the node object,
  \<open>node_id\<close> its \<open>id\<close>, \<open>pageable\<close> the answer of \<open>PageableViewNode.is\<close>, \<open>throws\<close>
  whether its \<open>getChildren\<close> computation fails, and \<open>items\<close> the whole ordered collection
  of its children, of which a pageable node shows a prefix window.
\<close>

datatype ViewNode =
  ViewNode (ref: nat) (node_id: string) (pageable: bool) (throws: bool) (items: "ViewNode list")

text \<open>What the search and the paging do to nodes, in order: ghost bookkeeping.\<close>

datatype event = Dequeue nat | GetChildren nat | ShowMore nat

text \<open>
  A cancellation token is read by polling; between two polls anything may have requested
  the cancellation. \<open>CancelledAt k\<close> is the token whose \<open>isCancellationRequested\<close> is
  true from the poll counted \<open>k\<close> on (\<open>polls\<close> below counts them), so a token cancelled
  before the call has \<open>k \<le> polls\<close> at the call.
\<close>

datatype CancellationToken = CancelledAt nat | NotCancelled

text \<open>
  The state of a view: \<open>_root\<close>, \<open>_lastKnownLimits\<close>, the field \<open>limit\<close> of every
  pageable node object (by identity), the number of polls of a token and of races with
  the timer so far, the events so far and what \<open>Logger.error\<close> received. \<open>timedOut\<close> is
  the environment of the timer of 60000 ms that stands in for a missing token:
  \<open>timedOut n\<close> tells whether, in the race counted \<open>n\<close>, the timer ends before the
  children of the node are there.
\<close>

record ViewBase =
  root :: "ViewNode option"
  lastKnownLimits :: "string \<rightharpoonup> nat"
  limit :: "nat \<Rightarrow> nat"
  polls :: nat
  timedOut :: "nat \<Rightarrow> bool"
  trace :: "event list"
  logged :: "error list"

text \<open>\<open>token?.isCancellationRequested\<close>: one poll; no token is never cancelled.\<close>

definition isCancellationRequested :: "CancellationToken option \<Rightarrow> ViewBase \<Rightarrow> bool \<times> ViewBase" where
  "isCancellationRequested tok s =
     ((case tok of Some (CancelledAt k) \<Rightarrow> k \<le> polls s | _ \<Rightarrow> False),
      s\<lparr>polls := Suc (polls s)\<rparr>)"

text \<open>
  Modelled from the spec: \<open>node.getChildren()\<close> of an imported node class. It throws, or
  yields the children: all of them, or the window of \<open>limit\<close> items of a pageable node.
\<close>

definition node_getChildren :: "ViewNode \<Rightarrow> ViewBase \<Rightarrow> (error + ViewNode list) \<times> ViewBase" where
  "node_getChildren n s =
     (let s' = s\<lparr>trace := trace s @ [GetChildren (ref n)]\<rparr> in
      if throws n then (Inl (Failure ''getChildren''), s')
      else (Inr (if pageable n then take (limit s (ref n)) (items n) else items n), s'))"

text \<open>Modelled from the spec: \<open>node.hasMore\<close>, whether items lie beyond the window.\<close>

definition hasMore :: "ViewNode \<Rightarrow> ViewBase \<Rightarrow> bool" where
  "hasMore n s = (limit s (ref n) < length (items n))"

text \<open>Modelled from the spec: \<open>node.showMore(limit)\<close> grows the window by the count.\<close>

definition node_showMore :: "ViewNode \<Rightarrow> nat \<Rightarrow> ViewBase \<Rightarrow> ViewBase" where
  "node_showMore n k s =
     s\<lparr>limit := (limit s)(ref n := limit s (ref n) + k), trace := trace s @ [ShowMore (ref n)]\<rparr>"

text \<open>
  \<open>reveal\<close> asks the host to show a node and logs what the host throws: nothing of the
  state above changes.
\<close>

definition reveal :: "ViewNode \<Rightarrow> ViewBase \<Rightarrow> ViewBase" where
  "reveal n s = s"

definition showMoreNodeChildren :: "ViewNode \<Rightarrow> nat \<Rightarrow> ViewNode option \<Rightarrow> ViewBase \<Rightarrow> ViewBase" where
  "showMoreNodeChildren node k previousNode s =
     (let s1 = (case previousNode of Some p \<Rightarrow> reveal p s | None \<Rightarrow> s);
          s2 = node_showMore node k s1
      in s2\<lparr>lastKnownLimits := (lastKnownLimits s2)(node_id node \<mapsto> limit s2 (ref node))\<rparr>)"

text \<open>
  Modelled from the spec: \<open>Promises.cancellable\<close> is imported. Here it wraps
  \<open>node.getChildren()\<close>, which has been called, with \<open>token ?? 60000\<close> and with
  \<open>onDidCancel\<close> resolving to the empty list. With a token, one more poll of the token
  decides between the children and \<open>[]\<close>. With no token, the children race with the
  timer of 60000 ms: the result is \<open>[]\<close> when the timer ends first. An exception of
  \<open>getChildren\<close> is the exception of the call.
\<close>

definition cancellable_getChildren ::
  "ViewNode \<Rightarrow> CancellationToken option \<Rightarrow> ViewBase \<Rightarrow> (error + ViewNode list) \<times> ViewBase" where
  "cancellable_getChildren node tok s =
     (case node_getChildren node s of
        (Inl e, s1) \<Rightarrow> (Inl e, s1)
      | (Inr cs, s1) \<Rightarrow>
          (case tok of
             None \<Rightarrow>
               (Inr (if timedOut s1 (polls s1) then [] else cs), s1\<lparr>polls := Suc (polls s1)\<rparr>)
           | Some t \<Rightarrow>
               (case isCancellationRequested tok s1 of
                  (True, s2) \<Rightarrow> (Inr [], s2)
                | (False, s2) \<Rightarrow> (Inr cs, s2))))"

subsection \<open>findNodeCoreBFS\<close>

text \<open>
  How a piece of the loop ends: \<open>return\<close>, a thrown exception, \<open>break\<close>, \<open>continue\<close>
  (or falling through to the next iteration), and \<open>OutOfFuel\<close> for a paging loop that
  has not ended within the rounds it was given.
\<close>

datatype flow = Return "ViewNode option" | Throw error | OutOfFuel | Break | Continue

text \<open>
  The parameters of \<open>findNodeCoreBFS\<close>, with \<open>defaultPageSize\<close>, which it reads from
  \<open>Container.config.advanced.maxListItems\<close>.
\<close>

record search =
  predicate :: "ViewNode \<Rightarrow> bool"
  allowPaging :: bool
  canTraverse :: "(ViewNode \<Rightarrow> bool) option"
  maxDepth :: nat
  token :: "CancellationToken option"
  defaultPageSize :: nat

text \<open>
  The loop \<open>while (true)\<close> of the paging, which has no bound of its own: the first
  argument is the number of rounds it may run.
\<close>

fun pagingLoop :: "nat \<Rightarrow> search \<Rightarrow> ViewNode \<Rightarrow> ViewBase \<Rightarrow> flow \<times> ViewBase" where
  "pagingLoop 0 c node s = (OutOfFuel, s)"
| "pagingLoop (Suc fuel) c node s =
     (case isCancellationRequested (token c) s of
        (True, s1) \<Rightarrow> (Return None, s1)
      | (False, s1) \<Rightarrow>
          (case cancellable_getChildren node (token c)
                  (showMoreNodeChildren node (defaultPageSize c) None s1) of
             (Inl e, s3) \<Rightarrow> (Throw e, s3)
           | (Inr pagedChildren, s3) \<Rightarrow>
               (case List.find (predicate c) pagedChildren of
                  Some child \<Rightarrow> (Return (Some child), s3)
                | None \<Rightarrow> if \<not> hasMore node s3 then (Break, s3) else pagingLoop fuel c node s3)))"

text \<open>
  The body of the outer loop for a node taken from the queue: the result is how it ends,
  the queue and the depth.
\<close>

definition findNodeCoreBFS_visit ::
  "nat \<Rightarrow> search \<Rightarrow> ViewNode \<Rightarrow> ViewNode option list \<Rightarrow> nat \<Rightarrow> ViewBase \<Rightarrow>
   flow \<times> ViewNode option list \<times> nat \<times> ViewBase" where
  "findNodeCoreBFS_visit fuel c node rest depth s =
     (if predicate c node then (Return (Some node), rest, depth, s)
      else if (case canTraverse c of Some f \<Rightarrow> \<not> f node | None \<Rightarrow> False)
        then (Continue, rest, depth, s)
      else
        (case node_getChildren node s of
           (Inl e, s2) \<Rightarrow> (Throw e, rest, depth, s2)
         | (Inr kids, s2) \<Rightarrow>
             if kids = [] then (Continue, rest, depth, s2)
             else if pageable node then
               (case List.find (predicate c) kids of
                  Some child \<Rightarrow> (Return (Some child), rest, depth, s2)
                | None \<Rightarrow>
                    if allowPaging c \<and> hasMore node s2 then
                      (case pagingLoop fuel c node s2 of
                         (Break, s3) \<Rightarrow> (Continue, rest, depth, s3)
                       | (f, s3) \<Rightarrow> (f, rest, depth, s3))
                    else (Continue, rest, depth, s2))
             else (Continue, rest @ map Some kids, depth, s2)))"

text \<open>
  One iteration of the outer loop. The queue holds nodes and the level marker
  \<open>undefined\<close> (\<open>None\<close>); \<open>shift()\<close> of an empty array is \<open>undefined\<close> too.
\<close>

definition findNodeCoreBFS_body ::
  "nat \<Rightarrow> search \<Rightarrow> ViewNode option list \<Rightarrow> nat \<Rightarrow> ViewBase \<Rightarrow>
   flow \<times> ViewNode option list \<times> nat \<times> ViewBase" where
  "findNodeCoreBFS_body fuel c queue depth s =
     (case isCancellationRequested (token c) s of
        (True, s1) \<Rightarrow> (Return None, queue, depth, s1)
      | (False, s1) \<Rightarrow>
          (case queue of
             [] \<Rightarrow>
               (if maxDepth c < Suc depth then (Break, [None], Suc depth, s1)
                else (Continue, [None], Suc depth, s1))
           | None # rest \<Rightarrow>
               (if maxDepth c < Suc depth then (Break, rest @ [None], Suc depth, s1)
                else (Continue, rest @ [None], Suc depth, s1))
           | Some node # rest \<Rightarrow>
               findNodeCoreBFS_visit fuel c node rest depth
                 (s1\<lparr>trace := trace s1 @ [Dequeue (ref node)]\<rparr>)))"

text \<open>The number of nodes of a tree, and of an entry of the queue.\<close>

fun nodeCount :: "ViewNode \<Rightarrow> nat" where
  "nodeCount (ViewNode r i p t cs) = Suc (sum_list (map nodeCount cs))"

fun weight :: "ViewNode option \<Rightarrow> nat" where
  "weight None = 0"
| "weight (Some n) = nodeCount n"

text \<open>
  The outer loop \<open>while (queue.length > 1)\<close>; after it the method returns \<open>undefined\<close>.
  It ends on every queue: an iteration either removes a node, putting only nodes below it
  into the queue, or counts the depth up, which ends the loop beyond \<open>maxDepth\<close>.
\<close>

function findNodeCoreBFS_while ::
  "nat \<Rightarrow> search \<Rightarrow> ViewNode option list \<Rightarrow> nat \<Rightarrow> ViewBase \<Rightarrow> flow \<times> ViewBase" where
  "findNodeCoreBFS_while fuel c queue depth s =
     (if 1 < length queue then
        (case findNodeCoreBFS_body fuel c queue depth s of
           (Continue, queue', depth', s') \<Rightarrow> findNodeCoreBFS_while fuel c queue' depth' s'
         | (Break, queue', depth', s') \<Rightarrow> (Return None, s')
         | (f, queue', depth', s') \<Rightarrow> (f, s'))
      else (Return None, s))"
  by pat_completeness auto
termination
proof (relation "inv_image (less_than <*lex*> less_than)
      (\<lambda>(fuel, c, queue, depth, s). (sum_list (map weight queue), Suc (maxDepth c) - depth))",
    goal_cases)
  case 1
  show ?case by (intro wf_inv_image wf_lex_prod wf_less_than)
next
  case (2 fuel c queue depth s f y queue' ya depth' s')
  then have b: "findNodeCoreBFS_body fuel c queue depth s = (Continue, queue', depth', s')"
    by simp
  have children: "sum_list (map weight (map Some cs)) < nodeCount node"
    if "node_getChildren node s1 = (Inr cs, s2)" for node cs s1 s2
  proof -
    have "cs = items node \<or> cs = take (limit s1 (ref node)) (items node)"
      using that by (auto simp: node_getChildren_def Let_def split: if_splits)
    moreover have "sum_list (map nodeCount (take k xs)) \<le> sum_list (map nodeCount xs)" for k xs
      by (metis append_take_drop_id le_add1 map_append sum_list_append)
    ultimately have "sum_list (map nodeCount cs) \<le> sum_list (map nodeCount (items node))"
      by auto
    then show ?thesis by (cases node) (simp add: comp_def)
  qed
  have "sum_list (map weight queue') < sum_list (map weight queue)
       \<or> (sum_list (map weight queue') = sum_list (map weight queue)
          \<and> Suc (maxDepth c) - depth' < Suc (maxDepth c) - depth)"
  proof (cases queue)
    case Nil
    then show ?thesis using 2(1) by simp
  next
    case (Cons x rest)
    show ?thesis
    proof (cases x)
      case None
      then show ?thesis using b Cons
        by (auto simp: findNodeCoreBFS_body_def split: prod.splits bool.splits if_splits)
    next
      case (Some node)
      have "queue' = rest
          \<or> (\<exists>cs s1 s2. queue' = rest @ map Some cs \<and> node_getChildren node s1 = (Inr cs, s2))"
        using b Cons Some
        by (auto simp: findNodeCoreBFS_body_def findNodeCoreBFS_visit_def
            split: prod.splits bool.splits if_splits sum.splits option.splits flow.splits)
      then show ?thesis using Cons Some children[of node] by (cases node) auto
    qed
  qed
  then show ?case by auto
qed

definition findNodeCoreBFS :: "nat \<Rightarrow> search \<Rightarrow> ViewNode \<Rightarrow> ViewBase \<Rightarrow> flow \<times> ViewBase" where
  "findNodeCoreBFS fuel c rootNode s = findNodeCoreBFS_while fuel c [Some rootNode, None] 0 s"

subsection \<open>ensureRoot, getChildren, findNode\<close>

text \<open>\<open>ensureRoot\<close>; the abstract factory \<open>getRoot()\<close> is the node it would produce.\<close>

definition ensureRoot :: "ViewNode \<Rightarrow> bool \<Rightarrow> ViewBase \<Rightarrow> ViewNode \<times> ViewBase" where
  "ensureRoot getRoot force s =
     (case root s of
        None \<Rightarrow> (getRoot, s\<lparr>root := Some getRoot\<rparr>)
      | Some r \<Rightarrow> if force then (getRoot, s\<lparr>root := Some getRoot\<rparr>) else (r, s))"

definition ViewBase_getChildren ::
  "ViewNode \<Rightarrow> ViewNode option \<Rightarrow> ViewBase \<Rightarrow> (error + ViewNode list) \<times> ViewBase" where
  "ViewBase_getChildren getRoot node s =
     (case node of
        Some n \<Rightarrow> node_getChildren n s
      | None \<Rightarrow> (case ensureRoot getRoot False s of (r, s1) \<Rightarrow> node_getChildren r s1))"

text \<open>
  \<open>show\<close> executes the host's focus command and handles its failure with the user:
  nothing of the state above changes.
\<close>

definition show_view :: "ViewBase \<Rightarrow> ViewBase" where
  "show_view s = s"

text \<open>
  The options object of \<open>findNode\<close>: every property may be absent. \<open>maxDepth\<close> counts
  levels below the root.
\<close>

record options =
  opt_allowPaging :: "bool option"
  opt_canTraverse :: "(ViewNode \<Rightarrow> bool) option"
  opt_maxDepth :: "nat option"
  opt_token :: "CancellationToken option"

text \<open>
  The defaults of the destructured options (\<open>allowPaging = false\<close>, \<open>maxDepth = 2\<close>) and
  the predicate of an id.
\<close>

definition findNode_args :: "nat \<Rightarrow> string + (ViewNode \<Rightarrow> bool) \<Rightarrow> options \<Rightarrow> search" where
  "findNode_args pageSize pred opts =
     \<lparr>predicate = (case pred of Inl i \<Rightarrow> (\<lambda>n. node_id n = i) | Inr p \<Rightarrow> p),
      allowPaging = (case opt_allowPaging opts of Some b \<Rightarrow> b | None \<Rightarrow> False),
      canTraverse = opt_canTraverse opts,
      maxDepth = (case opt_maxDepth opts of Some m \<Rightarrow> m | None \<Rightarrow> 2),
      token = opt_token opts,
      defaultPageSize = pageSize\<rparr>"

text \<open>
  \<open>findNode\<close>: an exception of the search is logged and the result is \<open>undefined\<close>.
  \<open>getRoot\<close>, the configured page size and the rounds a paging loop may run are
  parameters.
\<close>

definition findNode ::
  "ViewNode \<Rightarrow> nat \<Rightarrow> nat \<Rightarrow> string + (ViewNode \<Rightarrow> bool) \<Rightarrow> options \<Rightarrow> ViewBase \<Rightarrow>
   flow \<times> ViewBase" where
  "findNode getRoot pageSize fuel pred opts s =
     (let s1 = (if root s = None then show_view s else s) in
      case ensureRoot getRoot False s1 of
        (r, s2) \<Rightarrow>
          (case findNodeCoreBFS fuel (findNode_args pageSize pred opts) r s2 of
             (Throw e, s3) \<Rightarrow> (Return None, s3\<lparr>logged := logged s3 @ [e]\<rparr>)
           | (f, s3) \<Rightarrow> (f, s3)))"

section \<open>Notions the properties are stated with\<close>

text \<open>
  What \<open>refresh\<close> must have made of one repository: the first cached child with its
  normalized path, or else a node constructed for it, with an identity that was unused.
\<close>

definition reconciled :: "node list \<Rightarrow> nat \<Rightarrow> nat \<Rightarrow> repository \<Rightarrow> node \<Rightarrow> bool" where
  "reconciled cached lo hi r c =
     (case List.find (\<lambda>c'. stableKey c' = Some (normalizedPath r)) cached of
        Some c' \<Rightarrow> c = c'
      | None \<Rightarrow> c = RepositoryNode (inst c) r \<and> lo \<le> inst c \<and> inst c < hi)"

text \<open>The identities of the cached children matched by the repositories, in their order.\<close>

definition matchedInsts :: "node list \<Rightarrow> repository list \<Rightarrow> nat list" where
  "matchedInsts cached rs =
     List.map_filter
       (\<lambda>r. map_option inst (List.find (\<lambda>c'. stableKey c' = Some (normalizedPath r)) cached)) rs"

text \<open>The nodes at a depth below a node, which is at depth 0.\<close>

fun level :: "nat \<Rightarrow> ViewNode \<Rightarrow> ViewNode list" where
  "level 0 n = [n]"
| "level (Suc d) n = concat (map items (level d n))"

text \<open>The events between two states of a view.\<close>

definition callsDuring :: "ViewBase \<Rightarrow> ViewBase \<Rightarrow> event list" where
  "callsDuring s s' = drop (length (trace s)) (trace s')"

text \<open>The identity \<open>r\<close> is that of a node at depth \<open>m\<close> or less below \<open>rt\<close>.\<close>

definition shallow :: "nat \<Rightarrow> ViewNode \<Rightarrow> nat \<Rightarrow> bool" where
  "shallow m rt r = (\<exists>d\<le>m. r \<in> ref ` set (level d rt))"

fun eventRef :: "event \<Rightarrow> nat" where
  "eventRef (Dequeue r) = r"
| "eventRef (GetChildren r) = r"
| "eventRef (ShowMore r) = r"

fun isShowMore :: "event \<Rightarrow> bool" where
  "isShowMore (ShowMore r) = True"
| "isShowMore _ = False"

text \<open>
  From \<open>s\<close> to \<open>s'\<close> events were added, all on nodes with \<open>P\<close>; the window of every
  node has grown by one page of \<open>p\<close> items for each \<open>showMore\<close> on it among them, and the
  last known limits changed only if a \<open>showMore\<close> is among them.
\<close>

definition extends :: "nat \<Rightarrow> (nat \<Rightarrow> bool) \<Rightarrow> ViewBase \<Rightarrow> ViewBase \<Rightarrow> bool" where
  "extends p P s s' =
     (\<exists>evs. trace s' = trace s @ evs \<and> (\<forall>e\<in>set evs. P (eventRef e))
        \<and> (\<forall>r. limit s' r = limit s r + p * count_list evs (ShowMore r))
        \<and> ((\<forall>e\<in>set evs. \<not> isShowMore e) \<longrightarrow> lastKnownLimits s' = lastKnownLimits s)
        \<and> root s' = root s \<and> logged s' = logged s \<and> timedOut s' = timedOut s
        \<and> polls s \<le> polls s')"

text \<open>
  The invariant of the queue: nodes of the current depth, the marker, nodes of the next
  depth.
\<close>

definition queueInv :: "nat \<Rightarrow> ViewNode \<Rightarrow> ViewNode option list \<Rightarrow> nat \<Rightarrow> bool" where
  "queueInv m rt queue depth =
     (\<exists>cur nxt. queue = map Some cur @ None # map Some nxt
        \<and> set cur \<subseteq> set (level depth rt) \<and> set nxt \<subseteq> set (level (Suc depth) rt)
        \<and> depth \<le> m)"

section \<open>Example data\<close>

text \<open>
  A repository whose normalized path is its path; a container that has loaded the given
  children; a container that has not loaded.
\<close>

definition repo :: "string \<Rightarrow> int \<Rightarrow> bool \<Rightarrow> repository" where
  "repo p i c = \<lparr>path = p, normalizedPath = p, index = i, closed = c\<rparr>"

definition loaded :: "node list \<Rightarrow> RepositoriesNode" where
  "loaded cs = \<lparr>children = Some cs, subscribed = True, nextInst = length cs, fetches = 1,
                disposed = [], refreshed = []\<rparr>"

definition unloaded :: RepositoriesNode where
  "unloaded = \<lparr>children = None, subscribed = False, nextInst = 0, fetches = 0,
               disposed = [], refreshed = []\<rparr>"

text \<open>
  Trees: a pageable node over five items; a chain four levels deep; a pageable branch at
  depth 2 with its commits at depth 3.
\<close>

definition leaf :: "nat \<Rightarrow> string \<Rightarrow> ViewNode" where
  "leaf r i = ViewNode r i False False []"

definition pagedTree :: ViewNode where
  "pagedTree = ViewNode 0 ''commits'' True False
     [leaf 1 ''a'', leaf 2 ''b'', leaf 3 ''c'', leaf 4 ''d'', leaf 5 ''e'']"

definition deepTree :: ViewNode where
  "deepTree = ViewNode 0 ''root'' False False
     [ViewNode 1 ''a'' False False
        [ViewNode 2 ''b'' False False [ViewNode 3 ''c'' False False [leaf 4 ''d'']]]]"

definition branchTree :: ViewNode where
  "branchTree = ViewNode 0 ''root'' False False
     [ViewNode 1 ''repository'' False False
        [ViewNode 2 ''branch'' True False [leaf 3 ''c1'', leaf 4 ''c2'', leaf 5 ''c3'']]]"

text \<open>
  A view in which every window shows two items, nothing has happened yet and the timer
  never ends first; the options object with no property set.
\<close>

definition view0 :: "ViewNode option \<Rightarrow> ViewBase" where
  "view0 r = \<lparr>root = r, lastKnownLimits = Map.empty, limit = (\<lambda>_. 2), polls = 0,
              timedOut = (\<lambda>_. False), trace = [], logged = []\<rparr>"

definition opts0 :: options where
  "opts0 = \<lparr>opt_allowPaging = None, opt_canTraverse = None, opt_maxDepth = None,
            opt_token = None\<rparr>"

section \<open>Lemmas on the reconciliation\<close>

lemma findByNormalizedPath_find:
  "\<forall>c\<in>set cs. stableKey c \<noteq> None \<Longrightarrow>
   findByNormalizedPath p cs = Inr (List.find (\<lambda>c. stableKey c = Some p) cs)"
  by (induction p cs rule: findByNormalizedPath.induct) auto

lemma reconciled_mono:
  "reconciled cached lo hi r c \<Longrightarrow> lo' \<le> lo \<Longrightarrow> hi \<le> hi' \<Longrightarrow> reconciled cached lo' hi' r c"
  by (auto simp: reconciled_def split: option.splits)

lemma refresh_loop_spec:
  assumes "\<forall>c\<in>set cached. stableKey c \<noteq> None"
  shows "\<exists>new s'. refresh_loop cached rs acc s = (Inr (acc @ new), s')
           \<and> list_all2 (reconciled cached (nextInst s) (nextInst s')) rs new
           \<and> nextInst s \<le> nextInst s'
           \<and> refreshed s' = refreshed s @ matchedInsts cached rs
           \<and> disposed s' = disposed s \<and> children s' = children s
           \<and> fetches s' = fetches s \<and> subscribed s' = subscribed s"
proof (induction rs arbitrary: acc s)
  case Nil
  then show ?case by (simp add: matchedInsts_def)
next
  case (Cons r rs)
  let ?f = "List.find (\<lambda>c'. stableKey c' = Some (normalizedPath r)) cached"
  have fnd: "findByNormalizedPath (normalizedPath r) cached = Inr ?f"
    using assms by (rule findByNormalizedPath_find)
  show ?case
  proof (cases ?f)
    case None
    obtain new s' where st: "refresh_loop cached rs (acc @ [RepositoryNode (nextInst s) r]) (s\<lparr>nextInst := Suc (nextInst s)\<rparr>) = (Inr ((acc @ [RepositoryNode (nextInst s) r]) @ new), s')"
      and la: "list_all2 (reconciled cached (Suc (nextInst s)) (nextInst s')) rs new"
      and le: "Suc (nextInst s) \<le> nextInst s'"
      and rest: "refreshed s' = refreshed s @ matchedInsts cached rs" "disposed s' = disposed s" "children s' = children s"
        "fetches s' = fetches s" "subscribed s' = subscribed s"
      using Cons.IH[of "acc @ [RepositoryNode (nextInst s) r]" "s\<lparr>nextInst := Suc (nextInst s)\<rparr>"] by auto
    have "list_all2 (reconciled cached (nextInst s) (nextInst s')) rs new"
      using la by (rule list_all2_mono) (auto elim: reconciled_mono)
    moreover have "reconciled cached (nextInst s) (nextInst s') r (RepositoryNode (nextInst s) r)"
      using None le by (simp add: reconciled_def)
    ultimately show ?thesis
      using st le rest None fnd
      by (intro exI[of _ "RepositoryNode (nextInst s) r # new"] exI[of _ s'])
         (simp add: new_RepositoryNode_def matchedInsts_def List.map_filter_simps)
  next
    case (Some child)
    obtain new s' where st: "refresh_loop cached rs (acc @ [child]) (child_refresh child s) = (Inr ((acc @ [child]) @ new), s')"
      and la: "list_all2 (reconciled cached (nextInst s) (nextInst s')) rs new"
      and le: "nextInst s \<le> nextInst s'"
      and rest: "refreshed s' = refreshed s @ [inst child] @ matchedInsts cached rs" "disposed s' = disposed s" "children s' = children s"
        "fetches s' = fetches s" "subscribed s' = subscribed s"
      using Cons.IH[of "acc @ [child]" "child_refresh child s"] by (auto simp: child_refresh_def)
    have "reconciled cached (nextInst s) (nextInst s') r child"
      using Some by (simp add: reconciled_def)
    then show ?thesis
      using st la le rest Some fnd
      by (intro exI[of _ "child # new"] exI[of _ s'])
         (simp add: matchedInsts_def)
  qed
qed

lemma dispose_loop_spec:
  "disposed (dispose_loop cached kept s) = disposed s @ map inst [c \<leftarrow> cached. \<not> children_includes kept c]
   \<and> children (dispose_loop cached kept s) = children s
   \<and> nextInst (dispose_loop cached kept s) = nextInst s
   \<and> refreshed (dispose_loop cached kept s) = refreshed s
   \<and> fetches (dispose_loop cached kept s) = fetches s
   \<and> subscribed (dispose_loop cached kept s) = subscribed s"
  by (induction cached arbitrary: s) (auto simp: child_dispose_def)

lemma sortByIndex_sorted: "sorted (map index (sortByIndex rs))" "set (sortByIndex rs) = set rs"
  by (simp_all add: sortByIndex_def)

lemma reconciled_inst:
  assumes "reconciled cached lo hi r x" and "inst x = inst c" and "c \<in> set cached"
    and "distinct (map inst cached)" and "\<forall>c\<in>set cached. inst c < lo"
  shows "x = c \<and> stableKey c = Some (normalizedPath r)"
proof (cases "List.find (\<lambda>c'. stableKey c' = Some (normalizedPath r)) cached")
  case None
  then show ?thesis using assms by (auto simp: reconciled_def)
next
  case (Some c')
  from Some assms(1) have xc: "x = c'" by (simp add: reconciled_def)
  from Some have c': "c' \<in> set cached" "stableKey c' = Some (normalizedPath r)"
    by (auto simp: find_Some_iff)
  have "inj_on inst (set cached)" using assms(4) by (simp add: distinct_map)
  with c'(1) assms(2,3) xc have "c' = c" by (auto dest: inj_onD)
  with xc c'(2) show ?thesis by simp
qed


section \<open>Lemmas on the search\<close>

lemma extends_refl: "extends p P s s"
  by (simp add: extends_def)

lemma extends_trans: "extends p P s s1 \<Longrightarrow> extends p P s1 s2 \<Longrightarrow> extends p P s s2"
  unfolding extends_def
  apply (elim exE conjE)
  subgoal for evs1 evs2
    by (rule exI[of _ "evs1 @ evs2"]) (auto simp: algebra_simps)
  done

lemma extends_poll: "isCancellationRequested tok s = (b, s1) \<Longrightarrow> extends p P s s1"
  by (auto simp: isCancellationRequested_def extends_def)

lemma extends_getChildren:
  "node_getChildren n s = (r, s1) \<Longrightarrow> P (ref n) \<Longrightarrow> extends p P s s1"
  by (auto simp: node_getChildren_def extends_def Let_def split: if_splits)

lemma extends_dequeue: "P r \<Longrightarrow> extends p P s (s\<lparr>trace := trace s @ [Dequeue r]\<rparr>)"
  by (auto simp: extends_def)

lemma extends_showMore:
  "P (ref n) \<Longrightarrow> extends k P s (showMoreNodeChildren n k prev s)"
  by (auto simp: showMoreNodeChildren_def node_showMore_def reveal_def extends_def Let_def
      split: option.splits)

lemma extends_race: "extends p P s (s\<lparr>polls := Suc (polls s)\<rparr>)"
  by (simp add: extends_def)

lemma extends_cancellable:
  assumes "cancellable_getChildren n tok s = (r, s1)" and "P (ref n)"
  shows "extends p P s s1"
proof -
  obtain r0 s0 where g: "node_getChildren n s = (r0, s0)" by fastforce
  have e0: "extends p P s s0" using g assms(2) by (rule extends_getChildren)
  obtain b s2 where q: "isCancellationRequested tok s0 = (b, s2)" by fastforce
  have "s1 = s0 \<or> s1 = s0\<lparr>polls := Suc (polls s0)\<rparr> \<or> s1 = s2"
    using assms(1) g q
    by (auto simp: cancellable_getChildren_def split: sum.splits option.splits bool.splits)
  then show ?thesis
    using e0 extends_race[of p P s0] extends_poll[OF q, of p P] by (auto intro: extends_trans)
qed

lemma pagingLoop_extends:
  "pagingLoop fuel c node s = (f, s') \<Longrightarrow> P (ref node) \<Longrightarrow> extends (defaultPageSize c) P s s'"
proof (induction fuel arbitrary: s)
  case 0
  then show ?case by (simp add: extends_refl)
next
  case (Suc fuel)
  obtain b s1 where p: "isCancellationRequested (token c) s = (b, s1)" by fastforce
  have e1: "extends (defaultPageSize c) P s s1" using p by (rule extends_poll)
  show ?case
  proof (cases b)
    case True
    then show ?thesis using Suc.prems p e1 by simp
  next
    case False
    let ?s2 = "showMoreNodeChildren node (defaultPageSize c) None s1"
    obtain r s3 where g: "cancellable_getChildren node (token c) ?s2 = (r, s3)" by fastforce
    have e3: "extends (defaultPageSize c) P s s3"
      using e1 extends_showMore[of P node "defaultPageSize c" s1 None, OF Suc.prems(2)]
        extends_cancellable[OF g, of P "defaultPageSize c", OF Suc.prems(2)]
      by (blast intro: extends_trans)
    show ?thesis
    proof (cases r)
      case (Inl e)
      then show ?thesis using Suc.prems p False g e3 by simp
    next
      case (Inr pagedChildren)
      show ?thesis
      proof (cases "List.find (predicate c) pagedChildren = None \<and> hasMore node s3")
        case True
        then have "pagingLoop fuel c node s3 = (f, s')"
          using Suc.prems(1) p False g Inr by simp
        from Suc.IH[OF this Suc.prems(2)] e3 show ?thesis by (rule extends_trans[rotated])
      next
        case False
        then have "s' = s3" using Suc.prems(1) p \<open>\<not> b\<close> g Inr
          by (auto split: option.splits if_splits)
        then show ?thesis using e3 by simp
      qed
    qed
  qed
qed


lemma getChildren_subset:
  "node_getChildren n s = (Inr cs, s1) \<Longrightarrow> set cs \<subseteq> set (items n)"
  by (auto simp: node_getChildren_def Let_def split: if_splits dest: in_set_takeD)

lemma level_Suc_items:
  "n \<in> set (level d rt) \<Longrightarrow> set (items n) \<subseteq> set (level (Suc d) rt)"
  by auto

lemma body_marker:
  assumes "isCancellationRequested (token c) s = (False, s1)"
  shows "findNodeCoreBFS_body fuel c (None # rest) depth s =
           (if maxDepth c < Suc depth then Break else Continue, rest @ [None], Suc depth, s1)"
  using assms by (simp add: findNodeCoreBFS_body_def)

lemma body_cancelled:
  assumes "isCancellationRequested (token c) s = (True, s1)"
  shows "findNodeCoreBFS_body fuel c queue depth s = (Return None, queue, depth, s1)"
  using assms by (simp add: findNodeCoreBFS_body_def)

lemma body_node:
  assumes "isCancellationRequested (token c) s = (False, s1)"
  shows "findNodeCoreBFS_body fuel c (Some node # rest) depth s =
         findNodeCoreBFS_visit fuel c node rest depth (s1\<lparr>trace := trace s1 @ [Dequeue (ref node)]\<rparr>)"
  using assms by (simp add: findNodeCoreBFS_body_def)

lemma visit_inv:
  assumes v: "findNodeCoreBFS_visit fuel c node rest depth s = (f, queue', depth', s')"
    and P: "P (ref node)"
  shows "extends (defaultPageSize c) P s s'" and "depth' = depth"
    and "f = Continue \<Longrightarrow> queue' = rest \<or> (\<exists>cs. queue' = rest @ map Some cs \<and> set cs \<subseteq> set (items node))"
proof -
  obtain r s2 where g: "node_getChildren node s = (r, s2)" by fastforce
  have e2: "extends (defaultPageSize c) P s s2" using extends_getChildren[OF g, of P "defaultPageSize c", OF P] .
  obtain pf s3 where pl: "pagingLoop fuel c node s2 = (pf, s3)" by fastforce
  have e3: "extends (defaultPageSize c) P s s3" using e2 pagingLoop_extends[OF pl, of P, OF P] by (rule extends_trans)
  have "s' = s \<or> s' = s2 \<or> s' = s3"
    using v g pl
    by (auto simp: findNodeCoreBFS_visit_def split: if_splits sum.splits option.splits flow.splits)
  then show "extends (defaultPageSize c) P s s'" using e2 e3 extends_refl[of "defaultPageSize c" P s] by auto
  show "depth' = depth"
    using v g pl
    by (auto simp: findNodeCoreBFS_visit_def split: if_splits sum.splits option.splits flow.splits)
  show "queue' = rest \<or> (\<exists>cs. queue' = rest @ map Some cs \<and> set cs \<subseteq> set (items node))"
    if "f = Continue"
    using v g pl that getChildren_subset[of node s _ s2]
    by (auto simp: findNodeCoreBFS_visit_def split: if_splits sum.splits option.splits flow.splits)
qed

lemma body_inv:
  assumes inv: "queueInv m rt queue depth" and m: "maxDepth c = m"
    and b: "findNodeCoreBFS_body fuel c queue depth s = (f, queue', depth', s')"
  shows "extends (defaultPageSize c) (shallow m rt) s s'" and "f = Continue \<Longrightarrow> queueInv m rt queue' depth'"
proof -
  obtain cur nxt where q: "queue = map Some cur @ None # map Some nxt"
    and cur: "set cur \<subseteq> set (level depth rt)" and nxt: "set nxt \<subseteq> set (level (Suc depth) rt)"
    and d: "depth \<le> m"
    using inv by (auto simp: queueInv_def)
  obtain b0 s1 where p: "isCancellationRequested (token c) s = (b0, s1)" by fastforce
  have e1: "extends (defaultPageSize c) (shallow m rt) s s1" using p by (rule extends_poll)
  have "extends (defaultPageSize c) (shallow m rt) s s' \<and> (f = Continue \<longrightarrow> queueInv m rt queue' depth')"
  proof (cases b0)
    case True
    then show ?thesis using body_cancelled[of c s s1 fuel queue depth] p b e1 by simp
  next
    case False
    show ?thesis
    proof (cases cur)
      case Nil
      then have "queue' = map Some nxt @ [None]" "depth' = Suc depth" "s' = s1"
        "f = Continue \<longrightarrow> Suc depth \<le> m"
        using body_marker[of c s s1 fuel "map Some nxt" depth] p False b q m
        by (auto split: if_splits)
      moreover from this nxt have "f = Continue \<longrightarrow> queueInv m rt queue' depth'"
        unfolding queueInv_def by (intro impI exI[of _ nxt] exI[of _ "[]"]) simp
      ultimately show ?thesis using e1 by simp
    next
      case (Cons node cur')
      let ?rest = "map Some cur' @ None # map Some nxt"
      let ?s1 = "s1\<lparr>trace := trace s1 @ [Dequeue (ref node)]\<rparr>"
      have v: "findNodeCoreBFS_visit fuel c node ?rest depth ?s1 = (f, queue', depth', s')"
        using body_node[of c s s1 fuel node ?rest depth] p False b q Cons by simp
      have n: "node \<in> set (level depth rt)" using cur Cons by simp
      then have sh: "shallow m rt (ref node)" using d by (auto simp: shallow_def)
      have items: "set (items node) \<subseteq> set (level (Suc depth) rt)"
        using n by (rule level_Suc_items)
      have e1': "extends (defaultPageSize c) (shallow m rt) s ?s1"
        using e1 extends_dequeue[of "shallow m rt" "ref node" "defaultPageSize c" s1, OF sh] by (rule extends_trans)
      from visit_inv[OF v, of "shallow m rt", OF sh] e1'
      have e: "extends (defaultPageSize c) (shallow m rt) s s'" and dd: "depth' = depth"
        and qq: "f = Continue \<Longrightarrow> queue' = ?rest \<or> (\<exists>cs. queue' = ?rest @ map Some cs \<and> set cs \<subseteq> set (items node))"
        by (auto intro: extends_trans)
      have "queueInv m rt queue' depth'" if "f = Continue"
      proof -
        from qq[OF that] show ?thesis
        proof
          assume "queue' = ?rest"
          then show ?thesis using cur nxt d dd Cons
            unfolding queueInv_def by (intro exI[of _ cur'] exI[of _ nxt]) auto
        next
          assume "\<exists>cs. queue' = ?rest @ map Some cs \<and> set cs \<subseteq> set (items node)"
          then obtain cs where "queue' = map Some cur' @ None # map Some (nxt @ cs)"
            "set cs \<subseteq> set (items node)" by auto
          then show ?thesis using cur nxt d dd Cons items
            unfolding queueInv_def
            by (intro exI[of _ cur'] exI[of _ "nxt @ cs"]) auto
        qed
      qed
      then show ?thesis using e by simp
    qed
  qed
  then show "extends (defaultPageSize c) (shallow m rt) s s'" and "f = Continue \<Longrightarrow> queueInv m rt queue' depth'"
    by simp_all
qed

lemma while_extends:
  assumes "queueInv m rt queue depth" and "maxDepth c = m"
  shows "extends (defaultPageSize c) (shallow m rt) s (snd (findNodeCoreBFS_while fuel c queue depth s))"
  using assms
proof (induction fuel c queue depth s rule: findNodeCoreBFS_while.induct)
  case (1 fuel c queue depth s)
  show ?case
  proof (cases "1 < length queue")
    case False
    then show ?thesis by (subst findNodeCoreBFS_while.simps) (simp add: extends_refl)
  next
    case True
    obtain f queue' depth' s' where b: "findNodeCoreBFS_body fuel c queue depth s = (f, queue', depth', s')"
      by (metis prod_cases4)
    note bi = body_inv[OF "1.prems"(1,2) b]
    show ?thesis
    proof (cases "f = Continue")
      case c: True
      have "extends (defaultPageSize c) (shallow m rt) s' (snd (findNodeCoreBFS_while fuel c queue' depth' s'))"
        using "1.IH"[OF True b[symmetric] c refl refl bi(2)[OF c] "1.prems"(2)] .
      moreover have "findNodeCoreBFS_while fuel c queue depth s = findNodeCoreBFS_while fuel c queue' depth' s'"
        using True b c by (subst findNodeCoreBFS_while.simps) simp
      ultimately show ?thesis using bi(1) by (auto intro: extends_trans)
    next
      case False
      then have "snd (findNodeCoreBFS_while fuel c queue depth s) = s'"
        using True b by (subst findNodeCoreBFS_while.simps) (simp split: flow.splits)
      then show ?thesis using bi(1) by simp
    qed
  qed
qed


lemma while_rule:
  assumes "I queue depth s"
    and step: "\<And>queue depth s f queue' depth' s'.
        I queue depth s \<Longrightarrow> 1 < length queue \<Longrightarrow>
        findNodeCoreBFS_body fuel c queue depth s = (f, queue', depth', s') \<Longrightarrow>
        (f = Continue \<longrightarrow> I queue' depth' s') \<and> (f = Break \<longrightarrow> Q (Return None) s')
        \<and> (f \<noteq> Continue \<and> f \<noteq> Break \<longrightarrow> Q f s')"
    and exit: "\<And>queue depth s. I queue depth s \<Longrightarrow> \<not> 1 < length queue \<Longrightarrow> Q (Return None) s"
  shows "Q (fst (findNodeCoreBFS_while fuel c queue depth s))
           (snd (findNodeCoreBFS_while fuel c queue depth s))"
  using assms
proof (induction fuel c queue depth s rule: findNodeCoreBFS_while.induct)
  case (1 fuel c queue depth s)
  note I = "1.prems"(1) and step = "1.prems"(2) and exit = "1.prems"(3)
  show ?case
  proof (cases "1 < length queue")
    case False
    then show ?thesis using exit[OF I False]
      by (subst (1 2) findNodeCoreBFS_while.simps) simp
  next
    case True
    obtain f queue' depth' s' where b: "findNodeCoreBFS_body fuel c queue depth s = (f, queue', depth', s')"
      by (metis prod_cases4)
    note st = step[OF I True b]
    show ?thesis
    proof (cases "f = Continue")
      case c: True
      have "findNodeCoreBFS_while fuel c queue depth s = findNodeCoreBFS_while fuel c queue' depth' s'"
        using True b c by (subst findNodeCoreBFS_while.simps) simp
      moreover have "Q (fst (findNodeCoreBFS_while fuel c queue' depth' s'))
           (snd (findNodeCoreBFS_while fuel c queue' depth' s'))"
        using st c by (intro "1.IH"[OF True b[symmetric] c refl refl _ step exit]) simp_all
      ultimately show ?thesis by simp
    next
      case False
      then have "findNodeCoreBFS_while fuel c queue depth s = (if f = Break then Return None else f, s')"
        using True b by (subst findNodeCoreBFS_while.simps) (simp split: flow.splits)
      then show ?thesis using st False by auto
    qed
  qed
qed

subsection \<open>A found node was found before the cancellation\<close>










subsection \<open>Enough fuel: the paging loop ends when each round loads at least one item\<close>

lemma showMore_limit:
  "limit (showMoreNodeChildren n k prev s) (ref n) = limit s (ref n) + k"
  by (simp add: showMoreNodeChildren_def node_showMore_def reveal_def Let_def split: option.splits)

lemma cancellable_limit: "cancellable_getChildren n tok s = (r, s1) \<Longrightarrow> limit s1 = limit s"
  by (auto simp: cancellable_getChildren_def node_getChildren_def isCancellationRequested_def Let_def
      split: if_splits bool.splits option.splits)

lemma poll_limit: "isCancellationRequested tok s = (b, s1) \<Longrightarrow> limit s1 = limit s"
  by (auto simp: isCancellationRequested_def)

lemma pagingLoop_fuel:
  assumes "0 < defaultPageSize c"
    and "hasMore node s" and "length (items node) < fuel + limit s (ref node)"
  shows "fst (pagingLoop fuel c node s) \<noteq> OutOfFuel"
  using assms(2,3)
proof (induction fuel arbitrary: s)
  case 0
  then show ?case by (simp add: hasMore_def)
next
  case (Suc fuel)
  obtain b s1 where p: "isCancellationRequested (token c) s = (b, s1)" by fastforce
  let ?s2 = "showMoreNodeChildren node (defaultPageSize c) None s1"
  obtain r s3 where g: "cancellable_getChildren node (token c) ?s2 = (r, s3)" by fastforce
  have l3: "limit s3 (ref node) = limit s (ref node) + defaultPageSize c"
    using cancellable_limit[OF g] showMore_limit[of node "defaultPageSize c" None s1] poll_limit[OF p]
    by simp
  have "fst (pagingLoop fuel c node s3) \<noteq> OutOfFuel" if "hasMore node s3"
    using that Suc.prems(2) l3 assms(1) by (intro Suc.IH) auto
  then show ?case using p g
    by (auto split: bool.splits sum.splits option.splits)
qed

lemma visit_fuel:
  assumes "0 < defaultPageSize c" and "length (items node) < fuel"
    and "findNodeCoreBFS_visit fuel c node rest depth s = (f, queue', depth', s')"
  shows "f \<noteq> OutOfFuel"
proof -
  obtain r s2 where g: "node_getChildren node s = (r, s2)" by fastforce
  obtain pf s3 where pl: "pagingLoop fuel c node s2 = (pf, s3)" by fastforce
  have "fst (pagingLoop fuel c node s2) \<noteq> OutOfFuel" if "hasMore node s2"
    using assms(2) by (intro pagingLoop_fuel[OF assms(1) that]) simp
  then have "pf \<noteq> OutOfFuel" if "hasMore node s2" using that pl by simp
  then show ?thesis using assms(3) g pl
    by (auto simp: findNodeCoreBFS_visit_def split: if_splits sum.splits option.splits flow.splits)
qed

lemma member_nodeCount: "n \<in> set (items n') \<Longrightarrow> nodeCount n < nodeCount n'"
  by (cases n') (auto simp: less_Suc_eq_le intro: member_le_sum_list)

lemma level_nodeCount: "n \<in> set (level d rt) \<Longrightarrow> nodeCount n \<le> nodeCount rt"
proof (induction d arbitrary: n)
  case 0
  then show ?case by simp
next
  case (Suc d)
  then obtain n' where "n' \<in> set (level d rt)" "n \<in> set (items n')" by auto
  then show ?case using Suc.IH[of n'] member_nodeCount[of n n'] by simp
qed

lemma items_nodeCount: "length (items n) < nodeCount n"
proof (cases n)
  case (ViewNode r i p t cs)
  have "length cs \<le> sum_list (map nodeCount cs)"
  proof (induction cs)
    case Nil
    then show ?case by simp
  next
    case (Cons a cs)
    have "0 < nodeCount a" by (cases a) simp
    then show ?case using Cons by simp
  qed
  then show ?thesis using ViewNode by simp
qed

lemma body_fuel:
  assumes "queueInv m rt queue depth" and "0 < defaultPageSize c" and "nodeCount rt \<le> fuel"
    and "findNodeCoreBFS_body fuel c queue depth s = (f, queue', depth', s')"
  shows "f \<noteq> OutOfFuel"
proof -
  obtain b0 s1 where p: "isCancellationRequested (token c) s = (b0, s1)" by fastforce
  show ?thesis
  proof (cases b0)
    case True
    then show ?thesis using body_cancelled[of c s s1 fuel queue depth] p assms(4) by simp
  next
    case False
    show ?thesis
    proof (cases queue)
      case Nil
      then show ?thesis using assms(4) p False by (simp add: findNodeCoreBFS_body_def split: if_splits)
    next
      case (Cons x rest)
      show ?thesis
      proof (cases x)
        case None
        then show ?thesis using assms(4) p False Cons body_marker[of c s s1 fuel rest depth]
          by (simp split: if_splits)
      next
        case (Some node)
        then have "node \<in> set (level depth rt)"
          using assms(1) Cons by (auto simp: queueInv_def Cons_eq_append_conv Cons_eq_map_conv)
        then have "length (items node) < fuel"
          using level_nodeCount[of node depth rt] items_nodeCount[of node] assms(3) by simp
        then show ?thesis
          using assms(4) p False Cons Some body_node[of c s s1 fuel node rest depth]
            visit_fuel[OF assms(2), of node fuel rest depth _ f queue' depth' s']
          by simp
      qed
    qed
  qed
qed

lemma while_fuel:
  assumes "queueInv m rt queue depth" and "maxDepth c = m"
    and "0 < defaultPageSize c" and "nodeCount rt \<le> fuel"
  shows "fst (findNodeCoreBFS_while fuel c queue depth s) \<notin> {OutOfFuel, Break, Continue}"
proof (rule while_rule[where I = "\<lambda>q d s. queueInv m rt q d" and Q = "\<lambda>f s'. f \<notin> {OutOfFuel, Break, Continue}"])
  show "queueInv m rt queue depth" by fact
next
  fix queue depth s f queue' depth' s'
  assume "queueInv m rt queue depth" "1 < length queue"
    and "findNodeCoreBFS_body fuel c queue depth s = (f, queue', depth', s')"
  then show "(f = Continue \<longrightarrow> queueInv m rt queue' depth') \<and>
       (f = Break \<longrightarrow> Return None \<notin> {OutOfFuel, Break, Continue}) \<and>
       (f \<noteq> Continue \<and> f \<noteq> Break \<longrightarrow> f \<notin> {OutOfFuel, Break, Continue})"
    using body_inv(2)[OF _ assms(2)] body_fuel[OF _ assms(3,4)] by auto
qed simp


subsection \<open>What the paging loop computes\<close>

lemma poll_eq:
  "isCancellationRequested tok s =
     ((case tok of Some (CancelledAt k) \<Rightarrow> k \<le> polls s | _ \<Rightarrow> False), s\<lparr>polls := Suc (polls s)\<rparr>)"
  by (simp add: isCancellationRequested_def)





subsection \<open>Enough fuel: with a token, the paging loop ends at the cancellation\<close>






subsection \<open>The iteration that pages a node\<close>



subsection \<open>A page of no items: the paging loop does not end\<close>


section \<open>Properties of RepositoriesNode\<close>

subsection \<open>Cache stability\<close>

text \<open>
  C7. A loaded node (its children cache is present) answers \<open>getChildren\<close> with the
  cached list, the same node objects in the same order, and does nothing else: the data
  source is not asked, no node is constructed, the state is the one before the call.
  So it is for a second call, whatever the data source would answer by then.
\<close>

theorem getChildren_cache_stable:
  assumes "children s = Some cs"
  shows "RepositoriesNode_getChildren answer1 s = (Inr cs, s)
       \<and> RepositoriesNode_getChildren answer2 (snd (RepositoriesNode_getChildren answer1 s))
           = (Inr cs, s)"
  using assms by (simp add: RepositoriesNode_getChildren_def)

theorem getChildren_cache_stable_witness:
  "children (loaded [RepositoryNode 0 (repo ''/r1'' 0 False), RepositoryNode 1 (repo ''/r2'' 1 False)])
     = Some [RepositoryNode 0 (repo ''/r1'' 0 False), RepositoryNode 1 (repo ''/r2'' 1 False)]
   \<and> RepositoriesNode_getChildren (Inr [])
        (snd (RepositoriesNode_getChildren (Inl (Failure ''git''))
           (loaded [RepositoryNode 0 (repo ''/r1'' 0 False), RepositoryNode 1 (repo ''/r2'' 1 False)])))
     = (Inr [RepositoryNode 0 (repo ''/r1'' 0 False), RepositoryNode 1 (repo ''/r2'' 1 False)],
        loaded [RepositoryNode 0 (repo ''/r1'' 0 False), RepositoryNode 1 (repo ''/r2'' 1 False)])"
proof -
  have h: "children (loaded [RepositoryNode 0 (repo ''/r1'' 0 False), RepositoryNode 1 (repo ''/r2'' 1 False)])
     = Some [RepositoryNode 0 (repo ''/r1'' 0 False), RepositoryNode 1 (repo ''/r2'' 1 False)]"
    by (simp add: loaded_def)
  from getChildren_cache_stable[OF h, of "Inl (Failure ''git'')" "Inr []"]
  have "RepositoriesNode_getChildren (Inr [])
        (snd (RepositoriesNode_getChildren (Inl (Failure ''git''))
           (loaded [RepositoryNode 0 (repo ''/r1'' 0 False), RepositoryNode 1 (repo ''/r2'' 1 False)])))
     = (Inr [RepositoryNode 0 (repo ''/r1'' 0 False), RepositoryNode 1 (repo ''/r2'' 1 False)],
        loaded [RepositoryNode 0 (repo ''/r1'' 0 False), RepositoryNode 1 (repo ''/r2'' 1 False)])"
    by (rule conjunct2)
  with h show ?thesis by (rule conjI)
qed

subsection \<open>Reconciliation\<close>

text \<open>
  What \<open>refresh\<close> does for a collection that is not empty, on cached children that are
  all repository nodes: the new children are, repository by repository in the order of
  the index, the first cached child of that normalized path (on which \<open>refresh()\<close> is
  called) or a node constructed for it; the cached children that were not kept are
  disposed, in their order.
\<close>

lemma refresh_reconciles:
  assumes "children s = Some cached" and "\<forall>c\<in>set cached. stableKey c \<noteq> None"
    and "repositories \<noteq> []"
  shows "\<exists>cs s'. RepositoriesNode_refresh (Inr repositories) reason s = (Inr False, s')
           \<and> children s' = Some cs
           \<and> list_all2 (reconciled cached (nextInst s) (nextInst s')) (sortByIndex repositories) cs
           \<and> sorted (map index (sortByIndex repositories))
           \<and> refreshed s' = refreshed s @ matchedInsts cached (sortByIndex repositories)
           \<and> disposed s' = disposed s @ map inst [c \<leftarrow> cached. \<not> children_includes cs c]"
proof -
  let ?s1 = "s\<lparr>fetches := Suc (fetches s)\<rparr>"
  obtain cs s2 where lp: "refresh_loop cached (sortByIndex repositories) [] ?s1 = (Inr ([] @ cs), s2)"
    and la: "list_all2 (reconciled cached (nextInst ?s1) (nextInst s2)) (sortByIndex repositories) cs"
    and rest: "refreshed s2 = refreshed ?s1 @ matchedInsts cached (sortByIndex repositories)"
      "disposed s2 = disposed ?s1"
    using refresh_loop_spec[OF assms(2), of "sortByIndex repositories" "[]" ?s1] by blast
  let ?s3 = "(dispose_loop cached cs s2)\<lparr>children := Some cs\<rparr>"
  let ?s4 = "if reason = Some ConfigurationChanged then unsubscribe ?s3 else ?s3"
  have r: "RepositoriesNode_refresh (Inr repositories) reason s = (Inr False, ensureSubscription ?s4)"
    using assms(1,3) lp by (simp add: RepositoriesNode_refresh_def getRepositories_def Let_def)
  show ?thesis
    unfolding r using la rest dispose_loop_spec[of cached cs s2]
    by (intro exI[of _ cs] exI[of _ "ensureSubscription ?s4"])
       (simp add: ensureSubscription_def unsubscribe_def sortByIndex_sorted)
qed

text \<open>
  With cached children that are distinct objects of the heap, a cached child whose
  normalized path no repository of the collection has is disposed exactly once.
\<close>

lemma unmatched_disposed_once:
  assumes "children s = Some cached" and "\<forall>c\<in>set cached. stableKey c \<noteq> None"
    and "repositories \<noteq> []"
    and "distinct (map inst cached)" and "\<forall>c\<in>set cached. inst c < nextInst s"
    and "c \<in> set cached"
    and "stableKey c \<notin> (\<lambda>r. Some (normalizedPath r)) ` set repositories"
  shows "count_list (disposed (snd (RepositoriesNode_refresh (Inr repositories) reason s))) (inst c)
         = count_list (disposed s) (inst c) + 1"
proof -
  obtain cs s' where r: "RepositoriesNode_refresh (Inr repositories) reason s = (Inr False, s')"
    and la: "list_all2 (reconciled cached (nextInst s) (nextInst s')) (sortByIndex repositories) cs"
    and d: "disposed s' = disposed s @ map inst [c \<leftarrow> cached. \<not> children_includes cs c]"
    using refresh_reconciles[OF assms(1,2,3), of reason] by blast
  have notin: "\<not> children_includes cs c"
  proof
    assume "children_includes cs c"
    then obtain x where x: "x \<in> set cs" "inst x = inst c" by (auto simp: children_includes_def)
    then obtain r where "r \<in> set (sortByIndex repositories)" "reconciled cached (nextInst s) (nextInst s') r x"
      using la by (metis in_set_conv_nth list_all2_conv_all_nth)
    then show False
      using reconciled_inst[OF _ x(2) assms(6,4,5)] assms(7) by (auto simp: sortByIndex_sorted)
  qed
  have "count_list (map inst [c \<leftarrow> cached. \<not> children_includes cs c]) (inst c) = 1"
    using assms(4,6) notin
  proof (induction cached)
    case Nil then show ?case by simp
  next
    case (Cons a cached)
    show ?case
    proof (cases "a = c")
      case True
      then have "inst c \<notin> inst ` set cached" using Cons.prems(1) by auto
      then have "count_list (map inst [c \<leftarrow> cached. \<not> children_includes cs c]) (inst c) = 0"
        by (auto simp: count_list_0_iff)
      then show ?thesis using True Cons.prems by simp
    next
      case False
      then have "inst a \<noteq> inst c" using Cons.prems(1,2) by auto
      then show ?thesis using Cons False by auto
    qed
  qed
  then show ?thesis using r d by simp
qed

text \<open>
  C1. The claim asks that every cached child with no matching item be disposed, for
  every new collection. For the empty collection \<open>refresh\<close> returns early: it replaces
  the cached repository nodes by the placeholder and disposes none of them.
\<close>

theorem refresh_empty_drops_without_dispose:
  "RepositoriesNode_refresh (Inr []) None
     (loaded [RepositoryNode 0 (repo ''/r1'' 0 False), RepositoryNode 1 (repo ''/r2'' 1 False)])
   = (Inr False,
      \<lparr>children = Some [MessageNode 2 ''No repositories found''], subscribed = True,
       nextInst = 3, fetches = 2, disposed = [], refreshed = []\<rparr>)"
  by (simp add: RepositoriesNode_refresh_def getRepositories_def new_MessageNode_def loaded_def)

subsection \<open>The placeholder\<close>

text \<open>
  C2. A container that shows the cached placeholder and is refreshed through
  \<open>refreshNode\<close> while the collection is still empty: the guard of \<open>refresh\<close> asks for
  an empty children list, and the list of the placeholder has one element, so the
  placeholder is replaced by a new one; \<open>refresh\<close> never resolves to \<open>true\<close>, so each
  \<open>refreshNode\<close> fires. Two refreshes: two notifications, and a third placeholder.
\<close>

theorem refreshNode_placeholder_fires_again:
  "refreshNode (Some (\<lambda>reset. RepositoriesNode_refresh (Inr []) None)) (7::nat) False None
     (loaded [MessageNode 0 ''No repositories found''], [])
   = (Inr (),
      \<lparr>children = Some [MessageNode 1 ''No repositories found''], subscribed = True,
       nextInst = 2, fetches = 2, disposed = [], refreshed = []\<rparr>,
      [Some 7])
   \<and> refreshNode (Some (\<lambda>reset. RepositoriesNode_refresh (Inr []) None)) (7::nat) False None
     (\<lparr>children = Some [MessageNode 1 ''No repositories found''], subscribed = True,
       nextInst = 2, fetches = 2, disposed = [], refreshed = []\<rparr>,
      [Some 7])
   = (Inr (),
      \<lparr>children = Some [MessageNode 2 ''No repositories found''], subscribed = True,
       nextInst = 3, fetches = 3, disposed = [], refreshed = []\<rparr>,
      [Some 7, Some 7])"
  by (simp add: refreshNode_def triggerNodeChange_def RepositoriesNode_refresh_def
      getRepositories_def new_MessageNode_def loaded_def)

subsection \<open>refresh against getChildren\<close>

text \<open>
  C9. \<open>getChildren\<close> skips a closed repository and \<open>refresh\<close> does not: for the
  collection of a closed \<open>/r1\<close> and an open \<open>/r2\<close>, the refresh of a container that
  holds the node of \<open>/r2\<close> yields children for both, and \<open>getChildren\<close> on an unloaded
  container yields the node of \<open>/r2\<close> only.
\<close>

theorem refresh_keeps_closed_getChildren_skips:
  "map_option (map stableKey) (children (snd (RepositoriesNode_refresh
       (Inr [repo ''/r1'' 0 True, repo ''/r2'' 1 False]) None
       (loaded [RepositoryNode 0 (repo ''/r2'' 0 False)]))))
     = Some [Some ''/r1'', Some ''/r2'']
   \<and> fst (RepositoriesNode_getChildren (Inr [repo ''/r1'' 0 True, repo ''/r2'' 1 False]) unloaded)
     = Inr [RepositoryNode 0 (repo ''/r2'' 1 False)]"
  by (simp add: RepositoriesNode_refresh_def RepositoriesNode_getChildren_def getRepositories_def
      new_RepositoryNode_def sortByIndex_def loaded_def unloaded_def repo_def child_refresh_def
      children_includes_def ensureSubscription_def Let_def)

section \<open>Properties of findNode\<close>

lemma ensureRoot_frame:
  "trace (snd (ensureRoot g f s)) = trace s" "limit (snd (ensureRoot g f s)) = limit s"
  "lastKnownLimits (snd (ensureRoot g f s)) = lastKnownLimits s"
  "polls (snd (ensureRoot g f s)) = polls s" "logged (snd (ensureRoot g f s)) = logged s"
  by (auto simp: ensureRoot_def split: option.splits)

lemma findNode_unfold:
  "findNode getRoot pageSize fuel pred opts s =
     (case findNodeCoreBFS_while fuel (findNode_args pageSize pred opts)
             [Some (fst (ensureRoot getRoot False s)), None] 0 (snd (ensureRoot getRoot False s)) of
        (Throw e, s3) \<Rightarrow> (Return None, s3\<lparr>logged := logged s3 @ [e]\<rparr>)
      | (f, s3) \<Rightarrow> (f, s3))"
  by (simp add: findNode_def findNodeCoreBFS_def show_view_def split: prod.splits)

lemma findNode_cases:
  assumes "findNodeCoreBFS_while fuel (findNode_args pageSize pred opts)
             [Some (fst (ensureRoot getRoot False s)), None] 0 (snd (ensureRoot getRoot False s)) = (f, s3)"
  shows "(\<exists>e. f = Throw e \<and> findNode getRoot pageSize fuel pred opts s
                = (Return None, s3\<lparr>logged := logged s3 @ [e]\<rparr>))
       \<or> ((\<forall>e. f \<noteq> Throw e) \<and> findNode getRoot pageSize fuel pred opts s = (f, s3))"
  unfolding findNode_unfold assms by (cases f) simp_all

lemma queueInv_start: "queueInv m rt [Some rt, None] 0"
  unfolding queueInv_def by (intro exI[of _ "[rt]"] exI[of _ "[]"]) simp

text \<open>
  The events of a run of \<open>findNode\<close> are on nodes no deeper than \<open>maxDepth\<close>; at its
  end the window of every node is the one of the start and a page for each \<open>showMore\<close>
  on the node, and without a \<open>showMore\<close> the last known limits are those of the start.
\<close>

lemma findNode_events:
  "\<exists>evs. callsDuring s (snd (findNode getRoot pageSize fuel pred opts s)) = evs
     \<and> (\<forall>e\<in>set evs. shallow (maxDepth (findNode_args pageSize pred opts))
                        (fst (ensureRoot getRoot False s)) (eventRef e))
     \<and> (\<forall>r. limit (snd (findNode getRoot pageSize fuel pred opts s)) r
               = limit s r + pageSize * count_list evs (ShowMore r))
     \<and> ((\<forall>e\<in>set evs. \<not> isShowMore e) \<longrightarrow>
           lastKnownLimits (snd (findNode getRoot pageSize fuel pred opts s)) = lastKnownLimits s)"
proof -
  let ?c = "findNode_args pageSize pred opts"
  let ?rt = "fst (ensureRoot getRoot False s)"
  let ?s2 = "snd (ensureRoot getRoot False s)"
  let ?r = "findNodeCoreBFS_while fuel ?c [Some ?rt, None] 0 ?s2"
  let ?s' = "snd (findNode getRoot pageSize fuel pred opts s)"
  have ps: "defaultPageSize ?c = pageSize" by (simp add: findNode_args_def)
  have "extends (defaultPageSize ?c) (shallow (maxDepth ?c) ?rt) ?s2 (snd ?r)"
    by (rule while_extends[OF queueInv_start refl])
  then have "extends pageSize (shallow (maxDepth ?c) ?rt) ?s2 (snd ?r)"
    unfolding ps .
  then obtain evs where evs: "trace (snd ?r) = trace s @ evs"
    "\<forall>e\<in>set evs. shallow (maxDepth ?c) ?rt (eventRef e)"
    "\<forall>r. limit (snd ?r) r = limit s r + pageSize * count_list evs (ShowMore r)"
    "(\<forall>e\<in>set evs. \<not> isShowMore e) \<longrightarrow> lastKnownLimits (snd ?r) = lastKnownLimits s"
    by (auto simp: extends_def ensureRoot_frame)
  obtain f s3 where r: "?r = (f, s3)" by fastforce
  have "trace ?s' = trace (snd ?r)" "limit ?s' = limit (snd ?r)"
    "lastKnownLimits ?s' = lastKnownLimits (snd ?r)"
    using findNode_cases[OF r] r by auto
  then show ?thesis using evs by (simp add: callsDuring_def)
qed

subsection \<open>Depth bound\<close>

text \<open>
  C4. With \<open>maxDepth = m\<close>, a node that does not lie at a depth of \<open>m\<close> or less below the
  root of the search (in a tree: a node at depth \<open>m + 1\<close> or deeper) is never taken from
  the queue and \<open>getChildren\<close> is never called on it during the search.
\<close>

theorem findNode_depth_bound:
  assumes "opt_maxDepth opts = Some m"
    and "\<forall>d\<le>m. r \<notin> ref ` set (level d (fst (ensureRoot getRoot False s)))"
  shows "GetChildren r \<notin> set (callsDuring s (snd (findNode getRoot pageSize fuel pred opts s)))
       \<and> Dequeue r \<notin> set (callsDuring s (snd (findNode getRoot pageSize fuel pred opts s)))"
proof -
  have m: "maxDepth (findNode_args pageSize pred opts) = m"
    using assms(1) by (simp add: findNode_args_def)
  have "\<not> shallow m (fst (ensureRoot getRoot False s)) r"
    using assms(2) by (auto simp: shallow_def)
  then show ?thesis
    using findNode_events[of s getRoot pageSize fuel pred opts] unfolding m
    by (metis eventRef.simps(1,2))
qed

lemma upto_two: "(\<forall>d\<le>2. P d) \<longleftrightarrow> P 0 \<and> P 1 \<and> P (2::nat)"
proof -
  have "d \<le> 2 \<longleftrightarrow> d = 0 \<or> d = 1 \<or> d = 2" for d :: nat by auto
  then show ?thesis by auto
qed

lemma deepTree_levels:
  "3 \<notin> ref ` set (level 0 deepTree)" "3 \<notin> ref ` set (level 1 deepTree)"
  "3 \<notin> ref ` set (level 2 deepTree)" "3 \<in> ref ` set (level 3 deepTree)"
  by (simp_all add: deepTree_def leaf_def numeral_2_eq_2 numeral_3_eq_3)

lemma deepTree_below_two:
  "\<forall>d\<le>2. 3 \<notin> ref ` set (level d (fst (ensureRoot deepTree False (view0 None))))"
proof -
  have "fst (ensureRoot deepTree False (view0 None)) = deepTree"
    by (simp add: ensureRoot_def view0_def)
  then show ?thesis unfolding upto_two using deepTree_levels(1,2,3) by simp
qed

theorem findNode_depth_bound_witness:
  "opt_maxDepth (opts0\<lparr>opt_maxDepth := Some 2\<rparr>) = Some 2
   \<and> 3 \<notin> ref ` set (level 0 deepTree) \<and> 3 \<notin> ref ` set (level 1 deepTree)
   \<and> 3 \<notin> ref ` set (level 2 deepTree) \<and> 3 \<in> ref ` set (level 3 deepTree)
   \<and> GetChildren 3 \<notin> set (callsDuring (view0 None)
        (snd (findNode deepTree 2 10 (Inl ''d'') (opts0\<lparr>opt_maxDepth := Some 2\<rparr>) (view0 None))))
   \<and> Dequeue 3 \<notin> set (callsDuring (view0 None)
        (snd (findNode deepTree 2 10 (Inl ''d'') (opts0\<lparr>opt_maxDepth := Some 2\<rparr>) (view0 None))))"
proof -
  have m: "opt_maxDepth (opts0\<lparr>opt_maxDepth := Some 2\<rparr>) = Some 2" by simp
  note t = findNode_depth_bound[OF m deepTree_below_two, of 2 10 "Inl ''d''"]
  show ?thesis
    by (intro conjI m deepTree_levels t[THEN conjunct1] t[THEN conjunct2])
qed

subsection \<open>The default depth\<close>

text \<open>
  C10, as the claim states it, fails for the nodes below a pageable node: the children
  in the window of a pageable node at depth 2 lie at depth 3 and are tested against the
  predicate, so the default search returns a node three levels below the root.
\<close>

theorem findNode_default_counterexample:
  "fst (findNode branchTree 2 10 (Inl ''c1'') opts0 (view0 None)) = Return (Some (leaf 3 ''c1''))
   \<and> leaf 3 ''c1'' \<in> set (level 3 branchTree)
   \<and> leaf 3 ''c1'' \<notin> set (level 0 branchTree) \<and> leaf 3 ''c1'' \<notin> set (level 1 branchTree)
   \<and> leaf 3 ''c1'' \<notin> set (level 2 branchTree)"
  by code_simp

text \<open>
  C10, amended. Without \<open>maxDepth\<close> the search is the search with \<open>maxDepth = 2\<close>: the
  same result and the same state; and a node that does not lie at depth 2 or less is
  never taken from the queue and never asked for its children.
\<close>

theorem findNode_default_maxDepth:
  "findNode getRoot pageSize fuel pred (opts\<lparr>opt_maxDepth := None\<rparr>) s
     = findNode getRoot pageSize fuel pred (opts\<lparr>opt_maxDepth := Some 2\<rparr>) s
   \<and> ((\<forall>d\<le>2. r \<notin> ref ` set (level d (fst (ensureRoot getRoot False s)))) \<longrightarrow>
        Dequeue r \<notin> set (callsDuring s
          (snd (findNode getRoot pageSize fuel pred (opts\<lparr>opt_maxDepth := None\<rparr>) s)))
      \<and> GetChildren r \<notin> set (callsDuring s
          (snd (findNode getRoot pageSize fuel pred (opts\<lparr>opt_maxDepth := None\<rparr>) s))))"
proof -
  have m: "maxDepth (findNode_args pageSize pred (opts\<lparr>opt_maxDepth := None\<rparr>)) = 2"
    by (simp add: findNode_args_def)
  have "findNode_args pageSize pred (opts\<lparr>opt_maxDepth := None\<rparr>)
      = findNode_args pageSize pred (opts\<lparr>opt_maxDepth := Some 2\<rparr>)"
    by (simp add: findNode_args_def)
  then have eq: "findNode getRoot pageSize fuel pred (opts\<lparr>opt_maxDepth := None\<rparr>) s
     = findNode getRoot pageSize fuel pred (opts\<lparr>opt_maxDepth := Some 2\<rparr>) s"
    by (simp add: findNode_def)
  have "Dequeue r \<notin> set (callsDuring s
          (snd (findNode getRoot pageSize fuel pred (opts\<lparr>opt_maxDepth := None\<rparr>) s)))
      \<and> GetChildren r \<notin> set (callsDuring s
          (snd (findNode getRoot pageSize fuel pred (opts\<lparr>opt_maxDepth := None\<rparr>) s)))"
    if "\<forall>d\<le>2. r \<notin> ref ` set (level d (fst (ensureRoot getRoot False s)))"
  proof -
    have "\<not> shallow 2 (fst (ensureRoot getRoot False s)) r"
      using that by (auto simp: shallow_def)
    then show ?thesis
      using findNode_events[of s getRoot pageSize fuel pred "opts\<lparr>opt_maxDepth := None\<rparr>"]
      unfolding m by (metis eventRef.simps(1,2))
  qed
  then show ?thesis using eq by blast
qed

theorem findNode_default_maxDepth_witness:
  "findNode deepTree 2 10 (Inl ''c'') (opts0\<lparr>opt_maxDepth := None\<rparr>) (view0 None)
     = findNode deepTree 2 10 (Inl ''c'') (opts0\<lparr>opt_maxDepth := Some 2\<rparr>) (view0 None)
   \<and> 3 \<notin> ref ` set (level 0 deepTree) \<and> 3 \<notin> ref ` set (level 1 deepTree)
   \<and> 3 \<notin> ref ` set (level 2 deepTree)
   \<and> Dequeue 3 \<notin> set (callsDuring (view0 None)
        (snd (findNode deepTree 2 10 (Inl ''c'') (opts0\<lparr>opt_maxDepth := None\<rparr>) (view0 None))))
   \<and> GetChildren 3 \<notin> set (callsDuring (view0 None)
        (snd (findNode deepTree 2 10 (Inl ''c'') (opts0\<lparr>opt_maxDepth := None\<rparr>) (view0 None))))"
proof -
  note t = findNode_default_maxDepth[of deepTree 2 10 "Inl ''c''" opts0 "view0 None" 3]
  note u = t[THEN conjunct2, THEN mp, OF deepTree_below_two]
  show ?thesis
    by (intro conjI t[THEN conjunct1] deepTree_levels(1,2,3) u[THEN conjunct1] u[THEN conjunct2])
qed

subsection \<open>A token cancelled before the call\<close>



subsection \<open>A token cancelled during the search\<close>






subsection \<open>A node whose getChildren throws\<close>

text \<open>
  C8, as the claim states it, fails: \<open>getChildren\<close> of the view has no handler. For a
  node whose computation throws, the caller gets the exception, not the empty list, and
  nothing is logged.
\<close>

theorem getChildren_throws_counterexample:
  "fst (ViewBase_getChildren deepTree (Some (ViewNode 9 ''broken'' False True []))
          (view0 (Some deepTree))) \<noteq> Inr []
   \<and> fst (ViewBase_getChildren deepTree (Some (ViewNode 9 ''broken'' False True []))
          (view0 (Some deepTree))) = Inl (Failure ''getChildren'')
   \<and> logged (snd (ViewBase_getChildren deepTree (Some (ViewNode 9 ''broken'' False True []))
          (view0 (Some deepTree)))) = []"
  by (simp add: ViewBase_getChildren_def node_getChildren_def view0_def)

text \<open>
  C8, amended. \<open>getChildren\<close> of the view hands the call to the node (to the root when no
  node is given) and returns what the node returns: when the computation of the node
  throws, the exception reaches the caller unchanged and nothing is logged. So it is one
  level down: when the data source throws, \<open>getChildren\<close> of an unloaded
  \<open>RepositoriesNode\<close> throws that exception.
\<close>

theorem getChildren_propagates_failure:
  assumes "throws n"
  shows "fst (ViewBase_getChildren getRoot (Some n) s) = Inl (Failure ''getChildren'')
       \<and> logged (snd (ViewBase_getChildren getRoot (Some n) s)) = logged s
       \<and> (throws (fst (ensureRoot getRoot False s)) \<longrightarrow>
            fst (ViewBase_getChildren getRoot None s) = Inl (Failure ''getChildren'')
          \<and> logged (snd (ViewBase_getChildren getRoot None s)) = logged s)
       \<and> (children rs = None \<longrightarrow> fst (RepositoriesNode_getChildren (Inl e) rs) = Inl e)"
  using assms
  by (auto simp: ViewBase_getChildren_def node_getChildren_def ensureRoot_def
      RepositoriesNode_getChildren_def getRepositories_def split: option.splits)

theorem getChildren_propagates_failure_witness:
  "throws (ViewNode 9 ''broken'' False True [])
   \<and> fst (ViewBase_getChildren deepTree (Some (ViewNode 9 ''broken'' False True []))
          (view0 (Some deepTree))) = Inl (Failure ''getChildren'')
   \<and> logged (snd (ViewBase_getChildren deepTree (Some (ViewNode 9 ''broken'' False True []))
          (view0 (Some deepTree)))) = logged (view0 (Some deepTree))
   \<and> children unloaded = None
   \<and> fst (RepositoriesNode_getChildren (Inl (Failure ''git'')) unloaded) = Inl (Failure ''git'')"
proof -
  have h: "throws (ViewNode 9 ''broken'' False True [])" by simp
  have c: "children unloaded = None" by (simp add: unloaded_def)
  note r = getChildren_propagates_failure[OF h, of deepTree "view0 (Some deepTree)" unloaded
      "Failure ''git''"]
  note u = r[THEN conjunct2, THEN conjunct2, THEN conjunct2, THEN mp, OF c]
  show ?thesis
    by (intro conjI h c r[THEN conjunct1] r[THEN conjunct2, THEN conjunct1] u)
qed

subsection \<open>Paging\<close>




text \<open>
  The item \<open>e\<close> is the fifth of five, the window shows two and a page has two items: the
  search finds it in the window of six after two rounds of \<open>showMore\<close>, and records the
  limit.
\<close>

lemma findNode_paging_example:
  "fst (findNode pagedTree 2 10 (Inl ''e'') (opts0\<lparr>opt_allowPaging := Some True\<rparr>) (view0 None))
     = Return (Some (leaf 5 ''e''))"
  "callsDuring (view0 None)
     (snd (findNode pagedTree 2 10 (Inl ''e'') (opts0\<lparr>opt_allowPaging := Some True\<rparr>) (view0 None)))
     = [Dequeue 0, GetChildren 0, ShowMore 0, GetChildren 0, ShowMore 0, GetChildren 0]"
  "lastKnownLimits
     (snd (findNode pagedTree 2 10 (Inl ''e'') (opts0\<lparr>opt_allowPaging := Some True\<rparr>) (view0 None)))
     ''commits'' = Some 6"
  by code_simp+


end
